theory Spec2Isabelle
  imports Main "HOL-Library.Sublist"
begin

section \<open>Strings of the platform\<close>

text \<open>
  The program is the TypeScript module \<open>src/index.ts\<close>. Its strings are modelled as \<open>string\<close>, one \<open>char\<close> per
  code unit, read as the code points 0 to 255 (Latin-1). The string methods the program
  calls are written out below for that alphabet.
\<close>

definition isSpace :: "char \<Rightarrow> bool" where
  \<comment> \<open>the white space of \<open>String.prototype.trim\<close> and of the regular expression \<open>\s\<close>\<close>
  "isSpace c = (c \<in> set [CHR 0x09, CHR 0x0A, CHR 0x0B, CHR 0x0C, CHR 0x0D, CHR 0x20, CHR 0xA0])"

definition isDigit :: "char \<Rightarrow> bool" where
  \<comment> \<open>the regular expression \<open>\d\<close>\<close>
  "isDigit c = (c \<in> set ''0123456789'')"

definition lowerChar :: "char \<Rightarrow> char" where
  "lowerChar c =
     (let n = (of_char c :: nat)
      in if (65 \<le> n \<and> n \<le> 90) \<or> (192 \<le> n \<and> n \<le> 222 \<and> n \<noteq> 215)
         then char_of (n + 32) else c)"

definition toLowerCase :: "string \<Rightarrow> string" where
  "toLowerCase s = map lowerChar s"

definition trim :: "string \<Rightarrow> string" where
  "trim s = rev (dropWhile isSpace (rev (dropWhile isSpace s)))"

text \<open>
  \<open>s.split(/\s+/)\<close>: the pieces between the maximal runs of white space. A run at the
  start or at the end leaves an empty piece there, and the empty string gives the one
  piece \<open>''''\<close>.
\<close>

function splitWs :: "string \<Rightarrow> string list" where
  "splitWs s =
     (case dropWhile (\<lambda>c. \<not> isSpace c) s of
        [] \<Rightarrow> [s]
      | r # rs \<Rightarrow> takeWhile (\<lambda>c. \<not> isSpace c) s # splitWs (dropWhile isSpace rs))"
  by pat_completeness auto
termination
proof (relation "measure length")
  fix s :: string and r rs
  assume a: "dropWhile (\<lambda>c. \<not> isSpace c) s = r # rs"
  have "length (dropWhile isSpace rs) \<le> length rs"
    by (rule length_dropWhile_le)
  moreover have "length (r # rs) \<le> length s"
    using length_dropWhile_le [of "\<lambda>c. \<not> isSpace c" s] a by simp
  ultimately show "(dropWhile isSpace rs, s) \<in> measure length"
    by simp
qed simp

declare splitWs.simps [simp del]

text \<open>\<open>s.includes(w)\<close>: \<open>w\<close> occurs in \<open>s\<close> as a contiguous piece.\<close>

fun includesStr :: "string \<Rightarrow> string \<Rightarrow> bool" where
  "includesStr [] w = (w = [])"
| "includesStr (c # cs) w = (prefix w (c # cs) \<or> includesStr cs w)"

definition startsWith :: "string \<Rightarrow> string \<Rightarrow> bool" where
  "startsWith s p = prefix p s"

text \<open>
  \<open>xs.slice(start, end)\<close> of JavaScript: a negative index counts from the end, and
  both indices are clamped to the array.
\<close>

definition sliceIndex :: "nat \<Rightarrow> int \<Rightarrow> nat" where
  "sliceIndex len k = (if k < 0 then nat (max (int len + k) 0) else min (nat k) len)"

definition slice :: "'a list \<Rightarrow> int \<Rightarrow> int \<Rightarrow> 'a list" where
  "slice xs start end =
     (let from = sliceIndex (length xs) start; to = sliceIndex (length xs) end
      in take (to - from) (drop from xs))"

text \<open>Decimal rendering of a number inside a template string.\<close>

function showNat :: "nat \<Rightarrow> string" where
  "showNat n =
     (if n < 10 then [char_of (48 + n)]
      else showNat (n div 10) @ [char_of (48 + n mod 10)])"
  by pat_completeness auto
termination
  by (relation "measure id") auto

declare showNat.simps [simp del]

definition showInt :: "int \<Rightarrow> string" where
  "showInt i = (if i < 0 then CHR ''-'' # showNat (nat (- i)) else showNat (nat i))"

section \<open>Link results and \<open>uniqueLinks\<close>\<close>

record LinkResult =
  title :: string
  url :: string

text \<open>
  \<open>uniqueLinks\<close> walks the links once with a set of the urls seen so far and the result
  array; a link whose url is new is recorded and pushed.
\<close>

definition uniqueLinks_step ::
  "LinkResult \<Rightarrow> string set \<times> LinkResult list \<Rightarrow> string set \<times> LinkResult list" where
  "uniqueLinks_step link st =
     (let key = url link
      in if key \<notin> fst st then (insert key (fst st), snd st @ [link]) else st)"

definition uniqueLinks :: "LinkResult list \<Rightarrow> LinkResult list" where
  "uniqueLinks links = snd (fold uniqueLinks_step links ({}, []))"

section \<open>The platform\<close>

text \<open>
  What the program takes from outside itself: the HTML parser (cheerio), the URL class,
  the network, the order in which concurrent fetches complete, and the clock. They are
  parameters of the model; no theorem below assumes anything about them.
\<close>

record anchor =
  href :: "string option"    \<comment> \<open>\<open>$(element).attr("href")\<close>, \<open>None\<close> for undefined\<close>
  innerText :: string        \<comment> \<open>\<open>$(element).text()\<close>\<close>
  inDivF :: bool             \<comment> \<open>the element is selected by \<open>div.f a\<close>\<close>

datatype fetchOutcome =
    NetworkError                      \<comment> \<open>\<open>fetch\<close> rejects: DNS, connection, TLS, abort on timeout\<close>
  | Response nat "string option"      \<comment> \<open>status, and the body (\<open>None\<close>: reading it rejects)\<close>

record platform =
  load :: "string \<Rightarrow> anchor list"
    \<comment> \<open>\<open>load(html)\<close>: the \<open>a\<close> elements of the parsed document, in document order\<close>
  urlResolve :: "string \<Rightarrow> string \<Rightarrow> string option"
    \<comment> \<open>\<open>new URL(href, baseUrl).toString()\<close>, \<open>None\<close> when the constructor throws\<close>
  urlOrigin :: "string \<Rightarrow> string"
    \<comment> \<open>\<open>new URL(u).origin\<close>\<close>
  isUrl :: "string \<Rightarrow> bool"
    \<comment> \<open>the check of \<open>z.string().url()\<close>\<close>
  fetch :: "string \<Rightarrow> fetchOutcome"
  schedule :: "string list \<Rightarrow> nat list"
    \<comment> \<open>for a batch of page urls, the picks that fix the order in which its fetches complete\<close>
  currentYear :: int
    \<comment> \<open>\<open>new Date().getFullYear()\<close>\<close>

section \<open>\<open>extractLinks\<close>\<close>

definition normalizeUrl :: "platform \<Rightarrow> string \<Rightarrow> string \<Rightarrow> string option" where
  "normalizeUrl P baseUrl h = urlResolve P h baseUrl"

definition queryWordsOf :: "string \<Rightarrow> string list" where
  "queryWordsOf query = splitWs (trim (toLowerCase query))"

definition matchText :: "string list \<Rightarrow> string \<Rightarrow> bool" where
  "matchText queryWords lowerText = list_all (\<lambda>w. includesStr lowerText w) queryWords"

definition matchUrl :: "string list \<Rightarrow> string \<Rightarrow> bool" where
  "matchUrl queryWords lowerUrl = list_all (\<lambda>w. includesStr lowerUrl w) queryWords"

text \<open>
  The filters of the callback before the match, in the source's order: \<open>Some (text, url)\<close>
  when the anchor reaches the match step, \<open>None\<close> when the callback returns early.
\<close>

definition passesFilters :: "platform \<Rightarrow> string \<Rightarrow> string \<Rightarrow> anchor \<Rightarrow> (string \<times> string) option" where
  "passesFilters P baseUrl baseOrigin element =
     (let txt = trim (innerText element)
      in case href element of
           None \<Rightarrow> None
         | Some h \<Rightarrow>
             if h = [] \<or> txt = [] then None
             else (case normalizeUrl P baseUrl h of
                     None \<Rightarrow> None
                   | Some u \<Rightarrow>
                       let lowerUrl = toLowerCase u
                       in if u = [] then None
                          else if \<not> startsWith lowerUrl baseOrigin then None
                          else if includesStr lowerUrl ''-movies/'' then None
                          else if \<not> includesStr lowerUrl ''-movie/'' \<and> \<not> includesStr lowerUrl ''-series/''
                               then None
                          else Some (txt, u)))"

text \<open>The whole callback: the link it pushes, if any.\<close>

definition visitAnchor ::
  "platform \<Rightarrow> string \<Rightarrow> string \<Rightarrow> string list \<Rightarrow> anchor \<Rightarrow> LinkResult option" where
  "visitAnchor P baseUrl baseOrigin queryWords element =
     (case passesFilters P baseUrl baseOrigin element of
        None \<Rightarrow> None
      | Some (txt, u) \<Rightarrow>
          if matchText queryWords (toLowerCase txt) \<or> matchUrl queryWords (toLowerCase u)
          then Some \<lparr>title = txt, url = u\<rparr> else None)"

definition collectLinks :: "platform \<Rightarrow> string \<Rightarrow> string \<Rightarrow> string \<Rightarrow> LinkResult list" where
  \<comment> \<open>the array \<open>links\<close> when the walk over \<open>div.f a\<close> ends\<close>
  "collectLinks P html baseUrl query =
     (let baseOrigin = toLowerCase (urlOrigin P baseUrl);
          queryWords = queryWordsOf query
      in List.map_filter (visitAnchor P baseUrl baseOrigin queryWords)
           (filter inDivF (load P html)))"

definition extractLinks :: "platform \<Rightarrow> string \<Rightarrow> string \<Rightarrow> string \<Rightarrow> LinkResult list" where
  "extractLinks P html baseUrl query = uniqueLinks (collectLinks P html baseUrl query)"

section \<open>\<open>detectMaxPages\<close>\<close>

text \<open>
  \<open>href.match(/[?&]page=(\d+)/)\<close>: the digits captured by the leftmost match.
\<close>

fun matchPageQuery :: "string \<Rightarrow> string option" where
  "matchPageQuery [] = None"
| "matchPageQuery (c # cs) =
     (if (c = CHR ''?'' \<or> c = CHR ''&'') \<and> prefix ''page='' cs
         \<and> takeWhile isDigit (drop 5 cs) \<noteq> []
      then Some (takeWhile isDigit (drop 5 cs))
      else matchPageQuery cs)"

definition digitValue :: "char \<Rightarrow> nat" where
  "digitValue c = of_char c - 48"

definition parseInt10 :: "string \<Rightarrow> nat" where
  \<comment> \<open>\<open>parseInt(ds, 10)\<close> on a non-empty string of digits, as the exact integer; JavaScript
      rounds it to a double, which keeps every comparison with a number below \<open>2 ^ 53\<close>\<close>
  "parseInt10 ds = fold (\<lambda>c n. 10 * n + digitValue c) ds 0"

definition detectStep :: "anchor \<Rightarrow> nat \<Rightarrow> nat" where
  "detectStep el maxPage =
     (case href el of
        None \<Rightarrow> maxPage
      | Some h \<Rightarrow>
          if h = [] then maxPage
          else (case matchPageQuery h of
                  None \<Rightarrow> maxPage
                | Some ds \<Rightarrow> let p = parseInt10 ds in if p > maxPage then p else maxPage))"

definition detectMaxPages :: "platform \<Rightarrow> string \<Rightarrow> nat" where
  "detectMaxPages P html = fold detectStep (load P html) 1"

section \<open>Fetching a page\<close>

text \<open>
  \<open>fetchPage\<close> either throws (\<open>Inl ()\<close>: the fetch or the reading of the body rejects)
  or returns the body or \<open>null\<close>. Both callers attach \<open>.catch(() => null)\<close>.
\<close>

definition responseOk :: "nat \<Rightarrow> bool" where
  "responseOk status = (200 \<le> status \<and> status \<le> 299)"

definition fetchPage :: "platform \<Rightarrow> string \<Rightarrow> unit + string option" where
  "fetchPage P u =
     (case fetch P u of
        NetworkError \<Rightarrow> Inl ()
      | Response status body \<Rightarrow>
          if \<not> responseOk status then Inr None
          else (case body of
                  None \<Rightarrow> Inl ()
                | Some txt \<Rightarrow> if txt = [] \<or> length txt < 200 then Inr None else Inr (Some txt)))"

definition fetchPageCatch :: "platform \<Rightarrow> string \<Rightarrow> string option" where
  "fetchPageCatch P u = (case fetchPage P u of Inl _ \<Rightarrow> None | Inr r \<Rightarrow> r)"

section \<open>Concurrent batches\<close>

text \<open>
  The fetches of a batch run concurrently and complete in an order the program does not
  control. A completion order is fixed by a list of picks: at each step the pick selects,
  among the tasks still pending, the one that completes next (the first pending one when
  the picks have run out). Every list of picks gives an order in which each task completes
  once, and every such order comes from some list of picks.
\<close>

function completionOrder :: "nat list \<Rightarrow> nat list \<Rightarrow> nat list" where
  "completionOrder picks pending =
     (if pending = [] then []
      else let k = (case picks of [] \<Rightarrow> 0 | p # _ \<Rightarrow> p mod length pending);
               i = pending ! k
           in i # completionOrder (tl picks) (remove1 i pending))"
  by pat_completeness auto
termination
proof (relation "measure (\<lambda>(picks, pending). length pending)")
  fix picks pending :: "nat list" and k i
  assume ne: "pending \<noteq> []"
    and k: "k = (case picks of [] \<Rightarrow> 0 | p # _ \<Rightarrow> p mod length pending)"
    and i: "i = pending ! k"
  have "k < length pending"
    using ne k by (cases picks) simp_all
  then have "i \<in> set pending"
    using i by simp
  then have "length (remove1 i pending) < length pending"
    using ne by (simp add: length_remove1)
  then show "((tl picks, remove1 i pending), (picks, pending))
               \<in> measure (\<lambda>(picks, pending). length pending)"
    by simp
qed simp

declare completionOrder.simps [simp del]

text \<open>
  \<open>Promise.all\<close>: each task that completes stores its value in the slot of its index; the
  promise resolves, once every slot is filled, with the slots in index order.
\<close>

definition settle :: "'a list \<Rightarrow> nat \<Rightarrow> 'a option list \<Rightarrow> 'a option list" where
  "settle vals i slots = slots[i := Some (vals ! i)]"

definition promiseAll :: "nat list \<Rightarrow> 'a list \<Rightarrow> 'a list" where
  "promiseAll picks vals =
     List.map_filter id
       (fold (settle vals) (completionOrder picks [0..<length vals])
          (replicate (length vals) None))"

section \<open>\<open>searchMovieLinks\<close>\<close>

definition MAX_PAGES_ABSOLUTE_LIMIT :: nat where
  "MAX_PAGES_ABSOLUTE_LIMIT = 50"

definition YEAR_RANGE :: nat where
  "YEAR_RANGE = 7"

definition BATCH_SIZE :: nat where
  "BATCH_SIZE = 10"

datatype event =
    FetchEv string       \<comment> \<open>\<open>fetchPage(url)\<close> is called\<close>
  | DetectEv string      \<comment> \<open>\<open>detectMaxPages(html)\<close> is called\<close>

record crawl =
  allLinks :: "LinkResult list"
  events :: "event list"

definition yearsToScan :: "int \<Rightarrow> int list" where
  "yearsToScan cy = fold (\<lambda>i ys. ys @ [cy - int i]) [0..<YEAR_RANGE] [cy + 1]"

definition page1UrlOf :: "string \<Rightarrow> int \<Rightarrow> string" where
  "page1UrlOf baseUrl year = baseUrl @ ''/tamil-'' @ showInt year @ ''-movies/''"

definition pageUrlOf :: "string \<Rightarrow> int \<Rightarrow> nat \<Rightarrow> string" where
  "pageUrlOf baseUrl year p =
     baseUrl @ ''/tamil-'' @ showInt year @ ''-movies/?page='' @ showNat p"

definition pageTask :: "platform \<Rightarrow> string \<Rightarrow> string \<Rightarrow> string \<Rightarrow> LinkResult list" where
  \<comment> \<open>the value of the callback mapped over a batch\<close>
  "pageTask P baseUrl query u =
     (case fetchPageCatch P u of None \<Rightarrow> [] | Some h \<Rightarrow> extractLinks P h baseUrl query)"

function batchLoop ::
  "platform \<Rightarrow> string \<Rightarrow> string \<Rightarrow> string list \<Rightarrow> nat \<Rightarrow> crawl \<Rightarrow> crawl" where
  "batchLoop P baseUrl query pageUrls i st =
     (if i < length pageUrls then
        let batch = slice pageUrls (int i) (int (i + BATCH_SIZE));
            results = promiseAll (schedule P batch) (map (pageTask P baseUrl query) batch)
        in batchLoop P baseUrl query pageUrls (i + BATCH_SIZE)
             \<lparr>allLinks = fold (\<lambda>l acc. acc @ l) results (allLinks st),
              events = events st @ map FetchEv batch\<rparr>
      else st)"
  by pat_completeness auto
termination
  by (relation "measure (\<lambda>(P, baseUrl, query, pageUrls, i, st). length pageUrls - i)")
     (auto simp: BATCH_SIZE_def)

declare batchLoop.simps [simp del]

text \<open>The body of the loop over the years.\<close>

definition scanYear :: "platform \<Rightarrow> string \<Rightarrow> string \<Rightarrow> int \<Rightarrow> crawl \<Rightarrow> crawl" where
  "scanYear P baseUrl query year st =
     (let page1Url = page1UrlOf baseUrl year;
          st1 = st\<lparr>events := events st @ [FetchEv page1Url]\<rparr>
      in case fetchPageCatch P page1Url of
           None \<Rightarrow> st1
         | Some html1 \<Rightarrow>
             let links1 = extractLinks P html1 baseUrl query;
                 st2 = st1\<lparr>allLinks := allLinks st1 @ links1,
                           events := events st1 @ [DetectEv html1]\<rparr>;
                 detected = detectMaxPages P html1;
                 maxPages = (if detected > MAX_PAGES_ABSOLUTE_LIMIT
                             then MAX_PAGES_ABSOLUTE_LIMIT else detected)
             in if maxPages > 1
                then batchLoop P baseUrl query
                       (map (pageUrlOf baseUrl year) [2..<Suc maxPages]) 0 st2
                else st2)"

record SearchParams =
  baseUrl :: string
  query :: string
  maxResults :: "int option"

definition SearchInput :: "platform \<Rightarrow> SearchParams \<Rightarrow> bool" where
  \<comment> \<open>the schema the tool validates its input against\<close>
  "SearchInput P params =
     (isUrl P (baseUrl params) \<and> length (query params) \<ge> 1
      \<and> (case maxResults params of None \<Rightarrow> True | Some m \<Rightarrow> 1 \<le> m \<and> m \<le> 50))"

definition crawlYears :: "platform \<Rightarrow> SearchParams \<Rightarrow> crawl" where
  \<comment> \<open>the state when the loop over \<open>yearsToScan\<close> ends\<close>
  "crawlYears P params =
     fold (scanYear P (baseUrl params) (trim (query params)))
       (yearsToScan (currentYear P)) \<lparr>allLinks = [], events = []\<rparr>"

definition maxResultsOf :: "SearchParams \<Rightarrow> int" where
  "maxResultsOf params = (case maxResults params of None \<Rightarrow> 10 | Some m \<Rightarrow> m)"

definition searchMovieLinks :: "platform \<Rightarrow> SearchParams \<Rightarrow> LinkResult list" where
  "searchMovieLinks P params =
     slice (uniqueLinks (allLinks (crawlYears P params))) 0 (maxResultsOf params)"

section \<open>A sample site\<close>

text \<open>
  A concrete platform on which the functions above are run below. Its \<open>load\<close> is the
  table of the anchors of three documents, its \<open>fetch\<close> a table of outcomes, and its URL
  functions are those of the URL class on the inputs that occur here: absolute,
  lower-case http(s) urls that have a path, and hrefs that are absolute paths.
\<close>

definition pageA :: string where
  \<open>pageA =
     ''<html><body><div class="f"><a href="/dhandoraa-2025-tamil-movie/">Dhandoraa 20'' @
     ''25 Movie</a></div><div class="f"><a href="/tamil-2025-movies/">Tamil 2025 Movi'' @
     ''es</a></div><div class="f"><a href="/alappuzha-gymkhana-2025-tamil-movie/"> Al'' @
     ''appuzha Gymkhana (2025) HD </a></div><a href="/tamil-2025-movies/?page=9999">L'' @
     ''ast</a></body></html>''\<close>

definition pageB :: string where
  \<open>pageB =
     ''<html><body><div class="f"><a href="/dhandoraa-2025-tamil-movie/">DHANDORAA 20'' @
     ''25 MOVIE</a></div><div class="f"><a href="/kingdom-2025-tamil-web-series/">Kin'' @
     ''gdom</a></div><div class="f"><a href="/about/">About Dhandoraa</a></div><a hre'' @
     ''f="/dhandoraa-2025-tamil-movie/">Dhandoraa outside the wrapper</a></body></htm'' @
     ''l>''\<close>

definition pageEvil :: string where
  \<open>pageEvil =
     ''<div class="f"><a href="https://moviesda15.com.evil.example/x-movie/">x</a></d'' @
     ''iv>''\<close>

definition sampleBase :: string where
  "sampleBase = ''https://moviesda15.com''"

definition anchorsA :: "anchor list" where
  "anchorsA =
     [\<lparr>href = Some ''/dhandoraa-2025-tamil-movie/'', innerText = ''Dhandoraa 2025 Movie'',
       inDivF = True\<rparr>,
      \<lparr>href = Some ''/tamil-2025-movies/'', innerText = ''Tamil 2025 Movies'',
       inDivF = True\<rparr>,
      \<lparr>href = Some ''/alappuzha-gymkhana-2025-tamil-movie/'',
       innerText = '' Alappuzha Gymkhana (2025) HD '', inDivF = True\<rparr>,
      \<lparr>href = Some ''/tamil-2025-movies/?page=9999'', innerText = ''Last'',
       inDivF = False\<rparr>]"

definition anchorsB :: "anchor list" where
  "anchorsB =
     [\<lparr>href = Some ''/dhandoraa-2025-tamil-movie/'', innerText = ''DHANDORAA 2025 MOVIE'',
       inDivF = True\<rparr>,
      \<lparr>href = Some ''/kingdom-2025-tamil-web-series/'', innerText = ''Kingdom'',
       inDivF = True\<rparr>,
      \<lparr>href = Some ''/about/'', innerText = ''About Dhandoraa'', inDivF = True\<rparr>,
      \<lparr>href = Some ''/dhandoraa-2025-tamil-movie/'',
       innerText = ''Dhandoraa outside the wrapper'', inDivF = False\<rparr>]"

definition anchorsEvil :: "anchor list" where
  "anchorsEvil =
     [\<lparr>href = Some ''https://moviesda15.com.evil.example/x-movie/'', innerText = ''x'',
       inDivF = True\<rparr>]"

definition sampleLoad :: "string \<Rightarrow> anchor list" where
  "sampleLoad html =
     (if html = pageA then anchorsA
      else if html = pageB then anchorsB
      else if html = pageEvil then anchorsEvil
      else [])"

definition sampleOrigin :: "string \<Rightarrow> string" where
  \<comment> \<open>scheme, \<open>://\<close> and authority of an absolute http(s) url\<close>
  "sampleOrigin u =
     (let n = (if prefix ''https://'' u then 8 else 7)
      in take n u @ takeWhile (\<lambda>c. c \<notin> set ''/?#'') (drop n u))"

definition sampleResolve :: "string \<Rightarrow> string \<Rightarrow> string option" where
  "sampleResolve h base =
     (if prefix ''https://'' h \<or> prefix ''http://'' h then Some h
      else if prefix ''/'' h then Some (sampleOrigin base @ h)
      else None)"

definition sampleFetch :: "string \<Rightarrow> fetchOutcome" where
  "sampleFetch u =
     (if u = ''https://moviesda15.com/tamil-2026-movies/''
        then Response 404 (Some ''<html><body>Not Found</body></html>'')
      else if u = ''https://moviesda15.com/tamil-2025-movies/'' then Response 200 (Some pageA)
      else if u = ''https://moviesda15.com/tamil-2025-movies/?page=2''
        then Response 200 (Some pageB)
      else if u = ''https://moviesda15.com/tamil-2024-movies/''
        then Response 200 (Some ''<html></html>'')
      else NetworkError)"

definition samplePlatform :: platform where
  "samplePlatform =
     \<lparr>load = sampleLoad, urlResolve = sampleResolve, urlOrigin = sampleOrigin,
      isUrl = (\<lambda>u. prefix ''https://'' u \<or> prefix ''http://'' u),
      fetch = sampleFetch, schedule = (\<lambda>batch. []), currentYear = 2025\<rparr>"

definition reversedSchedule :: "string list \<Rightarrow> nat list" where
  \<comment> \<open>the fetches of every batch complete last to first\<close>
  "reversedSchedule batch = rev [0..<length batch]"

definition sampleParams :: SearchParams where
  "sampleParams = \<lparr>baseUrl = sampleBase, query = ''dhandoraa'', maxResults = None\<rparr>"

section \<open>Reference functions for the proofs\<close>

text \<open>The links of a list whose url is neither in \<open>seen\<close> nor earlier in the list.\<close>

fun firstsFrom :: "string set \<Rightarrow> LinkResult list \<Rightarrow> LinkResult list" where
  "firstsFrom seen [] = []"
| "firstsFrom seen (l # ls) =
     (if url l \<in> seen then firstsFrom seen ls else l # firstsFrom (insert (url l) seen) ls)"

definition isFetchEv :: "event \<Rightarrow> bool" where
  "isFetchEv e = (case e of FetchEv _ \<Rightarrow> True | DetectEv _ \<Rightarrow> False)"

definition fetchCount :: "event list \<Rightarrow> nat" where
  "fetchCount evs = length (filter isFetchEv evs)"

definition eventsOfYear :: "platform \<Rightarrow> string \<Rightarrow> string \<Rightarrow> int \<Rightarrow> event list" where
  \<comment> \<open>the calls one pass of the loop over the years makes\<close>
  "eventsOfYear P b q year = events (scanYear P b q year \<lparr>allLinks = [], events = []\<rparr>)"

definition linksOfYear :: "platform \<Rightarrow> string \<Rightarrow> string \<Rightarrow> int \<Rightarrow> LinkResult list" where
  \<comment> \<open>the links one pass of the loop over the years adds\<close>
  "linksOfYear P b q year = allLinks (scanYear P b q year \<lparr>allLinks = [], events = []\<rparr>)"

section \<open>Properties of \<open>uniqueLinks\<close>\<close>

lemma fold_uniqueLinks_step:
  "fold uniqueLinks_step ls (seen, acc) = (seen \<union> url ` set ls, acc @ firstsFrom seen ls)"
proof (induction ls arbitrary: seen acc)
  case Nil
  show ?case by simp
next
  case (Cons l ls)
  show ?case
  proof (cases "url l \<in> seen")
    case True
    then have "uniqueLinks_step l (seen, acc) = (seen, acc)"
      by (simp add: uniqueLinks_step_def)
    with True Cons.IH [of seen acc] show ?thesis
      by (simp add: insert_absorb)
  next
    case False
    then have "uniqueLinks_step l (seen, acc) = (insert (url l) seen, acc @ [l])"
      by (simp add: uniqueLinks_step_def)
    with False Cons.IH [of "insert (url l) seen" "acc @ [l]"] show ?thesis
      by simp
  qed
qed

lemma uniqueLinks_firstsFrom: "uniqueLinks ls = firstsFrom {} ls"
  by (simp add: uniqueLinks_def fold_uniqueLinks_step)

lemma firstsFrom_subseq: "subseq (firstsFrom seen ls) ls"
  by (induction ls arbitrary: seen) (auto intro: subseq_Cons')

lemma firstsFrom_urls: "url ` set (firstsFrom seen ls) = url ` set ls - seen"
  by (induction ls arbitrary: seen) auto

lemma firstsFrom_distinct: "distinct (map url (firstsFrom seen ls))"
  by (induction ls arbitrary: seen) (auto simp: firstsFrom_urls)

lemma firstsFrom_find:
  "find (\<lambda>l. url l = u) (firstsFrom seen ls) =
     (if u \<in> seen then None else find (\<lambda>l. url l = u) ls)"
  by (induction ls arbitrary: seen) auto

lemma uniqueLinks_length_le: "length (uniqueLinks ls) \<le> length ls"
  using firstsFrom_subseq [of "{}" ls] by (simp add: uniqueLinks_firstsFrom list_emb_length)

lemma set_uniqueLinks_subset: "set (uniqueLinks ls) \<subseteq> set ls"
  using firstsFrom_subseq [of "{}" ls]
  by (auto simp: uniqueLinks_firstsFrom elim: list_emb_set)

text \<open>
  C7. For every sequence of links, \<open>uniqueLinks\<close> returns a subsequence of it (the order
  is kept) in which no two links have the same url; the urls are those of the input, and
  for every url the link that is kept is the first one of the input with that url, title
  included.
\<close>

theorem uniqueLinks_first_occurrence:
  "subseq (uniqueLinks links) links
   \<and> distinct (map url (uniqueLinks links))
   \<and> url ` set (uniqueLinks links) = url ` set links
   \<and> (\<forall>u. find (\<lambda>l. url l = u) (uniqueLinks links) = find (\<lambda>l. url l = u) links)"
  by (simp add: uniqueLinks_firstsFrom firstsFrom_subseq firstsFrom_distinct
      firstsFrom_urls firstsFrom_find)

theorem uniqueLinks_first_occurrence_witness:
  "uniqueLinks [\<lparr>title = ''Dhandoraa'', url = ''/d''\<rparr>, \<lparr>title = ''Kingdom'', url = ''/k''\<rparr>,
                \<lparr>title = ''DHANDORAA'', url = ''/d''\<rparr>]
     = [\<lparr>title = ''Dhandoraa'', url = ''/d''\<rparr>, \<lparr>title = ''Kingdom'', url = ''/k''\<rparr>]
   \<and> find (\<lambda>l. url l = ''/d'')
        (uniqueLinks [\<lparr>title = ''Dhandoraa'', url = ''/d''\<rparr>, \<lparr>title = ''Kingdom'', url = ''/k''\<rparr>,
                      \<lparr>title = ''DHANDORAA'', url = ''/d''\<rparr>])
     = Some \<lparr>title = ''Dhandoraa'', url = ''/d''\<rparr>"
proof -
  let ?ls = "[\<lparr>title = ''Dhandoraa'', url = ''/d''\<rparr>, \<lparr>title = ''Kingdom'', url = ''/k''\<rparr>,
              \<lparr>title = ''DHANDORAA'', url = ''/d''\<rparr>]"
  have run: "uniqueLinks ?ls
               = [\<lparr>title = ''Dhandoraa'', url = ''/d''\<rparr>, \<lparr>title = ''Kingdom'', url = ''/k''\<rparr>]"
    by code_simp
  have "find (\<lambda>l. url l = ''/d'') (uniqueLinks ?ls) = find (\<lambda>l. url l = ''/d'') ?ls"
    using uniqueLinks_first_occurrence [of ?ls] by blast
  then have "find (\<lambda>l. url l = ''/d'') (uniqueLinks ?ls)
               = Some \<lparr>title = ''Dhandoraa'', url = ''/d''\<rparr>"
    by simp
  with run show ?thesis by simp
qed

section \<open>Properties of the string functions\<close>

lemma includesStr_sublist: "includesStr s w = sublist w s"
  by (induction s) (auto simp: sublist_Cons_right)

lemma includesStr_empty: "includesStr s []"
  by (simp add: includesStr_sublist)

lemma isSpace_iff: "isSpace c = ((of_char c :: nat) \<in> {9, 10, 11, 12, 13, 32, 160})"
proof -
  have "isSpace c = ((of_char c :: nat) = of_char (CHR 0x09) \<or> (of_char c :: nat) = of_char (CHR 0x0A)
      \<or> (of_char c :: nat) = of_char (CHR 0x0B) \<or> (of_char c :: nat) = of_char (CHR 0x0C)
      \<or> (of_char c :: nat) = of_char (CHR 0x0D) \<or> (of_char c :: nat) = of_char (CHR 0x20)
      \<or> (of_char c :: nat) = of_char (CHR 0xA0))"
    unfolding isSpace_def by (simp only: of_char_eq_iff list.set insert_iff empty_iff simp_thms)
  also have "\<dots> = ((of_char c :: nat) \<in> {9, 10, 11, 12, 13, 32, 160})"
    by simp
  finally show ?thesis .
qed

lemma isSpace_lowerChar: "isSpace (lowerChar c) = isSpace c"
proof -
  let ?n = "of_char c :: nat"
  show ?thesis
  proof (cases "(65 \<le> ?n \<and> ?n \<le> 90) \<or> (192 \<le> ?n \<and> ?n \<le> 222 \<and> ?n \<noteq> 215)")
    case True
    then have lc: "lowerChar c = char_of (?n + 32)"
      by (simp add: lowerChar_def Let_def)
    from True have "(?n + 32) mod 256 = ?n + 32"
      by auto
    then have "(of_char (lowerChar c) :: nat) = ?n + 32"
      by (simp add: lc)
    with True show ?thesis
      unfolding isSpace_iff by auto
  next
    case False
    then show ?thesis
      by (auto simp: lowerChar_def Let_def)
  qed
qed

lemma dropWhile_isSpace_toLowerCase:
  "dropWhile isSpace (toLowerCase s) = toLowerCase (dropWhile isSpace s)"
  by (induction s) (simp_all add: toLowerCase_def isSpace_lowerChar)

lemma trim_toLowerCase: "trim (toLowerCase s) = toLowerCase (trim s)"
  unfolding trim_def
  by (metis dropWhile_isSpace_toLowerCase rev_map toLowerCase_def)

lemma splitWs_empty: "splitWs [] = [[]]"
  by (simp add: splitWs.simps)

lemma queryWordsOf_blank: "trim q = [] \<Longrightarrow> queryWordsOf q = [[]]"
proof -
  assume "trim q = []"
  then have "trim (toLowerCase q) = []"
    by (simp add: trim_toLowerCase) (simp add: toLowerCase_def)
  then show ?thesis
    by (simp add: queryWordsOf_def splitWs_empty)
qed

lemma trim_blank: "trim s = [] \<longleftrightarrow> (\<forall>c \<in> set s. isSpace c)"
proof
  assume "trim s = []"
  then have all: "\<forall>c \<in> set (dropWhile isSpace s). isSpace c"
    by (simp add: trim_def dropWhile_eq_Nil_conv)
  have "dropWhile isSpace s = []"
  proof (rule ccontr)
    assume ne: "dropWhile isSpace s \<noteq> []"
    then have "\<not> isSpace (hd (dropWhile isSpace s))"
      by (rule hd_dropWhile)
    moreover have "hd (dropWhile isSpace s) \<in> set (dropWhile isSpace s)"
      using ne by simp
    ultimately show False
      using all by blast
  qed
  then show "\<forall>c \<in> set s. isSpace c"
    by (simp add: dropWhile_eq_Nil_conv)
next
  assume "\<forall>c \<in> set s. isSpace c"
  then have "dropWhile isSpace s = []"
    by (simp add: dropWhile_eq_Nil_conv)
  then show "trim s = []"
    unfolding trim_def by (simp only: rev.simps dropWhile.simps)
qed

lemma slice_from_0:
  "0 \<le> n \<Longrightarrow> slice xs 0 n = take (nat n) xs"
  by (simp add: slice_def sliceIndex_def Let_def min_def)

lemma slice_window:
  "slice xs (int i) (int (i + n)) = take n (drop i xs)"
proof -
  have f: "sliceIndex (length xs) (int i) = min i (length xs)"
    by (simp add: sliceIndex_def)
  have t: "sliceIndex (length xs) (int (i + n)) = min (i + n) (length xs)"
    by (simp add: sliceIndex_def nat_int_add)
  show ?thesis
  proof (cases "i \<le> length xs")
    case True
    then have "min (i + n) (length xs) - min i (length xs) = min n (length (drop i xs))"
      by auto
    with True show ?thesis
      unfolding slice_def Let_def f t by (simp add: min_def)
  next
    case False
    then show ?thesis
      unfolding slice_def Let_def f t by simp
  qed
qed

section \<open>Properties of \<open>extractLinks\<close>\<close>

lemma matchText_iff: "matchText ws s = (\<forall>w \<in> set ws. sublist w s)"
  by (simp add: matchText_def list_all_iff includesStr_sublist)

lemma matchUrl_iff: "matchUrl ws s = (\<forall>w \<in> set ws. sublist w s)"
  by (simp add: matchUrl_def list_all_iff includesStr_sublist)

lemma visitAnchor_passes:
  "passesFilters P b bo el = Some (txt, u) \<Longrightarrow>
   visitAnchor P b bo ws el =
     (if matchText ws (toLowerCase txt) \<or> matchUrl ws (toLowerCase u)
      then Some \<lparr>title = txt, url = u\<rparr> else None)"
  by (simp add: visitAnchor_def)

lemma visitAnchor_SomeD:
  "visitAnchor P b bo ws el = Some l \<Longrightarrow>
   passesFilters P b bo el = Some (title l, url l)
   \<and> (matchText ws (toLowerCase (title l)) \<or> matchUrl ws (toLowerCase (url l)))"
  by (auto simp: visitAnchor_def split: option.splits prod.splits if_splits)

lemma passesFilters_SomeD:
  "passesFilters P b bo el = Some (txt, u) \<Longrightarrow>
   txt = trim (innerText el) \<and> txt \<noteq> []
   \<and> (\<exists>h. href el = Some h \<and> h \<noteq> [] \<and> normalizeUrl P b h = Some u)
   \<and> startsWith (toLowerCase u) bo
   \<and> \<not> includesStr (toLowerCase u) ''-movies/''
   \<and> (includesStr (toLowerCase u) ''-movie/'' \<or> includesStr (toLowerCase u) ''-series/'')"
  unfolding passesFilters_def Let_def
  by (auto split: option.splits if_splits)

lemma set_map_filter_conv:
  "set (List.map_filter f xs) = {y. \<exists>x \<in> set xs. f x = Some y}"
  by (induction xs) (auto split: option.splits)

lemma set_collectLinks:
  "set (collectLinks P html b q) =
     {l. \<exists>el \<in> set (load P html). inDivF el
          \<and> visitAnchor P b (toLowerCase (urlOrigin P b)) (queryWordsOf q) el = Some l}"
  by (auto simp: collectLinks_def Let_def set_map_filter_conv)

lemma set_extractLinks_subset:
  "set (extractLinks P html b q) \<subseteq> set (collectLinks P html b q)"
  unfolding extractLinks_def by (rule set_uniqueLinks_subset)

lemma urls_extractLinks:
  "url ` set (extractLinks P html b q) = url ` set (collectLinks P html b q)"
  by (simp add: extractLinks_def uniqueLinks_firstsFrom firstsFrom_urls)

lemma map_filter_map_option:
  "List.map_filter (\<lambda>x. map_option f (g x)) xs = map f (List.map_filter g xs)"
  by (induction xs) (auto split: option.splits)

lemma visitAnchor_blank:
  "visitAnchor P b bo [[]] el =
     map_option (\<lambda>(txt, u). \<lparr>title = txt, url = u\<rparr>) (passesFilters P b bo el)"
  by (auto simp: visitAnchor_def matchText_def includesStr_empty split: option.splits)

section \<open>The sample site, evaluated\<close>

lemma length_pageA: "length pageA = 333"
  by (simp add: pageA_def)

lemma length_pageB: "length pageB = 314"
  by (simp add: pageB_def)

lemma length_pageEvil: "length pageEvil = 81"
  by (simp add: pageEvil_def)

lemma sample_pages_differ: "pageB \<noteq> pageA" "pageEvil \<noteq> pageA" "pageEvil \<noteq> pageB"
  using length_pageA length_pageB length_pageEvil by auto

lemma sampleLoad_pages:
  "sampleLoad pageA = anchorsA" "sampleLoad pageB = anchorsB" "sampleLoad pageEvil = anchorsEvil"
  by (simp_all add: sampleLoad_def sample_pages_differ)

lemma samplePlatform_fields:
  "load samplePlatform = sampleLoad" "urlResolve samplePlatform = sampleResolve"
  "urlOrigin samplePlatform = sampleOrigin" "fetch samplePlatform = sampleFetch"
  "currentYear samplePlatform = 2025"
  by (simp_all add: samplePlatform_def)

lemma sampleOrigin_base: "toLowerCase (sampleOrigin sampleBase) = ''https://moviesda15.com''"
  by code_simp

lemma passesFilters_anchorsA:
  "List.map_filter (passesFilters samplePlatform sampleBase ''https://moviesda15.com'')
     (filter inDivF anchorsA)
   = [(''Dhandoraa 2025 Movie'', ''https://moviesda15.com/dhandoraa-2025-tamil-movie/''),
      (''Alappuzha Gymkhana (2025) HD'',
       ''https://moviesda15.com/alappuzha-gymkhana-2025-tamil-movie/'')]"
  by code_simp

section \<open>Claims about \<open>extractLinks\<close>\<close>

text \<open>
  C3. For an anchor under \<open>div.f\<close> that passes the filters before the match (href and
  trimmed text non-empty, url resolved, origin prefix, slug shape), the callback pushes the
  link of that anchor if and only if every query word is a substring of the lower-cased
  text or every query word is a substring of the lower-cased url, and pushes nothing
  otherwise. The link is then among the collected links exactly in that case, and when it
  is, \<open>extractLinks\<close> returns a link with its url.
\<close>

theorem extractLinks_emits_iff_match:
  assumes "el \<in> set (load P html)" and "inDivF el"
    and "passesFilters P b (toLowerCase (urlOrigin P b)) el = Some (txt, u)"
  shows "(visitAnchor P b (toLowerCase (urlOrigin P b)) (queryWordsOf q) el
            = Some \<lparr>title = txt, url = u\<rparr>)
           = ((\<forall>w \<in> set (queryWordsOf q). sublist w (toLowerCase txt))
              \<or> (\<forall>w \<in> set (queryWordsOf q). sublist w (toLowerCase u)))
       \<and> (visitAnchor P b (toLowerCase (urlOrigin P b)) (queryWordsOf q) el = None)
           = (\<not> ((\<forall>w \<in> set (queryWordsOf q). sublist w (toLowerCase txt))
                 \<or> (\<forall>w \<in> set (queryWordsOf q). sublist w (toLowerCase u))))
       \<and> (\<lparr>title = txt, url = u\<rparr> \<in> set (collectLinks P html b q))
           = ((\<forall>w \<in> set (queryWordsOf q). sublist w (toLowerCase txt))
              \<or> (\<forall>w \<in> set (queryWordsOf q). sublist w (toLowerCase u)))
       \<and> ((\<forall>w \<in> set (queryWordsOf q). sublist w (toLowerCase txt))
              \<or> (\<forall>w \<in> set (queryWordsOf q). sublist w (toLowerCase u))
           \<longrightarrow> u \<in> url ` set (extractLinks P html b q))"
proof -
  let ?bo = "toLowerCase (urlOrigin P b)"
  let ?ws = "queryWordsOf q"
  let ?m = "(\<forall>w \<in> set ?ws. sublist w (toLowerCase txt)) \<or> (\<forall>w \<in> set ?ws. sublist w (toLowerCase u))"
  let ?l = "\<lparr>title = txt, url = u\<rparr>"
  have v: "visitAnchor P b ?bo ?ws el = (if ?m then Some ?l else None)"
    using visitAnchor_passes [OF assms(3), of ?ws] by (simp add: matchText_iff matchUrl_iff)
  have c: "(?l \<in> set (collectLinks P html b q)) = ?m"
  proof
    assume "?l \<in> set (collectLinks P html b q)"
    then obtain el' where "visitAnchor P b ?bo ?ws el' = Some ?l"
      by (auto simp: set_collectLinks)
    from visitAnchor_SomeD [OF this] show ?m
      by (simp add: matchText_iff matchUrl_iff)
  next
    assume ?m
    with v have "visitAnchor P b ?bo ?ws el = Some ?l"
      by simp
    with assms(1,2) show "?l \<in> set (collectLinks P html b q)"
      by (auto simp: set_collectLinks)
  qed
  have e: "?m \<longrightarrow> u \<in> url ` set (extractLinks P html b q)"
  proof
    assume ?m
    with c have "?l \<in> set (collectLinks P html b q)"
      by simp
    then have "url ?l \<in> url ` set (collectLinks P html b q)"
      by (rule imageI)
    then show "u \<in> url ` set (extractLinks P html b q)"
      by (simp add: urls_extractLinks)
  qed
  from v c e show ?thesis
    by simp
qed

theorem extractLinks_emits_iff_match_witness:
  "visitAnchor samplePlatform sampleBase (toLowerCase (urlOrigin samplePlatform sampleBase))
     (queryWordsOf ''Alappuzha Gymkhana'') (anchorsA ! 2)
     = Some \<lparr>title = ''Alappuzha Gymkhana (2025) HD'',
             url = ''https://moviesda15.com/alappuzha-gymkhana-2025-tamil-movie/''\<rparr>
   \<and> ''https://moviesda15.com/alappuzha-gymkhana-2025-tamil-movie/''
       \<in> url ` set (extractLinks samplePlatform pageA sampleBase ''Alappuzha Gymkhana'')
   \<and> visitAnchor samplePlatform sampleBase (toLowerCase (urlOrigin samplePlatform sampleBase))
       (queryWordsOf ''dhandoraa'') (anchorsA ! 2) = None"
proof -
  let ?txt = "''Alappuzha Gymkhana (2025) HD''"
  let ?u = "''https://moviesda15.com/alappuzha-gymkhana-2025-tamil-movie/''"
  have h1: "anchorsA ! 2 \<in> set (load samplePlatform pageA)"
    by (simp add: samplePlatform_fields sampleLoad_pages) (simp add: anchorsA_def)
  have h2: "inDivF (anchorsA ! 2)"
    by (simp add: anchorsA_def)
  have h3: "passesFilters samplePlatform sampleBase
              (toLowerCase (urlOrigin samplePlatform sampleBase)) (anchorsA ! 2) = Some (?txt, ?u)"
    by code_simp
  have "matchText (queryWordsOf ''Alappuzha Gymkhana'') (toLowerCase ?txt)"
    by code_simp
  then have m: "\<forall>w \<in> set (queryWordsOf ''Alappuzha Gymkhana''). sublist w (toLowerCase ?txt)"
    by (simp add: matchText_iff)
  have "\<not> matchText (queryWordsOf ''dhandoraa'') (toLowerCase ?txt)"
    and "\<not> matchUrl (queryWordsOf ''dhandoraa'') (toLowerCase ?u)"
    by code_simp+
  then have n: "\<not> ((\<forall>w \<in> set (queryWordsOf ''dhandoraa''). sublist w (toLowerCase ?txt))
                  \<or> (\<forall>w \<in> set (queryWordsOf ''dhandoraa''). sublist w (toLowerCase ?u)))"
    by (simp add: matchText_iff matchUrl_iff)
  from extractLinks_emits_iff_match [OF h1 h2 h3, of "''Alappuzha Gymkhana''"] m
    extractLinks_emits_iff_match [OF h1 h2 h3, of "''dhandoraa''"] n
  show ?thesis
    by blast
qed

text \<open>
  C4. Every link \<open>extractLinks\<close> returns has a url whose lower-cased form does not
  contain \<open>-movies/\<close> and contains \<open>-movie/\<close> or \<open>-series/\<close>. For every anchor, if
  the lower-cased resolved url contains \<open>-movies/\<close> the callback pushes nothing, whatever
  else the url contains, and it pushes nothing either when the url contains neither
  \<open>-movie/\<close> nor \<open>-series/\<close>.
\<close>

theorem extractLinks_slug_shape:
  "(\<forall>l \<in> set (extractLinks P html b q).
       \<not> sublist ''-movies/'' (toLowerCase (url l))
       \<and> (sublist ''-movie/'' (toLowerCase (url l)) \<or> sublist ''-series/'' (toLowerCase (url l))))
   \<and> (\<forall>h u. href el = Some h \<and> normalizeUrl P b h = Some u
          \<and> sublist ''-movies/'' (toLowerCase u)
        \<longrightarrow> visitAnchor P b bo ws el = None)
   \<and> (\<forall>h u. href el = Some h \<and> normalizeUrl P b h = Some u
          \<and> \<not> sublist ''-movie/'' (toLowerCase u) \<and> \<not> sublist ''-series/'' (toLowerCase u)
        \<longrightarrow> visitAnchor P b bo ws el = None)"
proof (intro conjI ballI allI impI)
  fix l
  assume "l \<in> set (extractLinks P html b q)"
  then have "l \<in> set (collectLinks P html b q)"
    using set_extractLinks_subset by blast
  then obtain el' where
    "visitAnchor P b (toLowerCase (urlOrigin P b)) (queryWordsOf q) el' = Some l"
    by (auto simp: set_collectLinks)
  from visitAnchor_SomeD [OF this]
  have "passesFilters P b (toLowerCase (urlOrigin P b)) el' = Some (title l, url l)"
    by simp
  from passesFilters_SomeD [OF this]
  show "\<not> sublist ''-movies/'' (toLowerCase (url l))"
    and "sublist ''-movie/'' (toLowerCase (url l)) \<or> sublist ''-series/'' (toLowerCase (url l))"
    by (simp_all add: includesStr_sublist)
next
  fix h u
  assume a: "href el = Some h \<and> normalizeUrl P b h = Some u
             \<and> sublist ''-movies/'' (toLowerCase u)"
  show "visitAnchor P b bo ws el = None"
  proof (cases "visitAnchor P b bo ws el")
    case None
    then show ?thesis .
  next
    case (Some l)
    from passesFilters_SomeD [OF conjunct1 [OF visitAnchor_SomeD [OF Some]]] a
    show ?thesis
      by (auto simp: includesStr_sublist)
  qed
next
  fix h u
  assume a: "href el = Some h \<and> normalizeUrl P b h = Some u
             \<and> \<not> sublist ''-movie/'' (toLowerCase u) \<and> \<not> sublist ''-series/'' (toLowerCase u)"
  show "visitAnchor P b bo ws el = None"
  proof (cases "visitAnchor P b bo ws el")
    case None
    then show ?thesis .
  next
    case (Some l)
    from passesFilters_SomeD [OF conjunct1 [OF visitAnchor_SomeD [OF Some]]] a
    show ?thesis
      by (auto simp: includesStr_sublist)
  qed
qed

theorem extractLinks_slug_shape_witness:
  "extractLinks samplePlatform pageA sampleBase ''tamil''
     = [\<lparr>title = ''Dhandoraa 2025 Movie'',
         url = ''https://moviesda15.com/dhandoraa-2025-tamil-movie/''\<rparr>,
        \<lparr>title = ''Alappuzha Gymkhana (2025) HD'',
         url = ''https://moviesda15.com/alappuzha-gymkhana-2025-tamil-movie/''\<rparr>]
   \<and> visitAnchor samplePlatform sampleBase ''https://moviesda15.com'' [''tamil'']
        (anchorsA ! 1) = None
   \<and> visitAnchor samplePlatform sampleBase ''https://moviesda15.com'' [''about'']
        (anchorsB ! 2) = None"
proof -
  have run: "extractLinks samplePlatform pageA sampleBase ''tamil''
     = [\<lparr>title = ''Dhandoraa 2025 Movie'',
         url = ''https://moviesda15.com/dhandoraa-2025-tamil-movie/''\<rparr>,
        \<lparr>title = ''Alappuzha Gymkhana (2025) HD'',
         url = ''https://moviesda15.com/alappuzha-gymkhana-2025-tamil-movie/''\<rparr>]"
    unfolding extractLinks_def collectLinks_def Let_def samplePlatform_fields sampleLoad_pages
    by code_simp
  have a1: "href (anchorsA ! 1) = Some ''/tamil-2025-movies/''
            \<and> normalizeUrl samplePlatform sampleBase ''/tamil-2025-movies/''
                = Some ''https://moviesda15.com/tamil-2025-movies/''
            \<and> sublist ''-movies/'' (toLowerCase ''https://moviesda15.com/tamil-2025-movies/'')"
    unfolding includesStr_sublist [symmetric] by code_simp
  have a2: "href (anchorsB ! 2) = Some ''/about/''
            \<and> normalizeUrl samplePlatform sampleBase ''/about/''
                = Some ''https://moviesda15.com/about/''
            \<and> \<not> sublist ''-movie/'' (toLowerCase ''https://moviesda15.com/about/'')
            \<and> \<not> sublist ''-series/'' (toLowerCase ''https://moviesda15.com/about/'')"
    unfolding includesStr_sublist [symmetric] by code_simp
  note thm1 = extractLinks_slug_shape
    [of samplePlatform pageA sampleBase "''tamil''" "anchorsA ! 1" "''https://moviesda15.com''"
       "[''tamil'']"]
  note thm2 = extractLinks_slug_shape
    [of samplePlatform pageA sampleBase "''tamil''" "anchorsB ! 2" "''https://moviesda15.com''"
       "[''about'']"]
  from thm1 a1 have p2: "visitAnchor samplePlatform sampleBase ''https://moviesda15.com''
        [''tamil''] (anchorsA ! 1) = None"
    by blast
  from thm2 a2 have p3: "visitAnchor samplePlatform sampleBase ''https://moviesda15.com''
        [''about''] (anchorsB ! 2) = None"
    by blast
  from run p2 p3 show ?thesis
    by blast
qed

text \<open>
  C10. When the trimmed query is empty (a query of white space only, which the schema
  accepts since its length is at least 1), the query words are the single empty string,
  the empty string is included in every string, and the match step excludes nothing: the
  collected links are exactly the anchors under \<open>div.f\<close> that pass the filters before the
  match, \<open>extractLinks\<close> returns them with repeated urls removed, and the url of every
  such anchor is among the urls returned.
\<close>

theorem blank_query_matches_everything:
  assumes "trim q = []"
  shows "queryWordsOf q = ['''']
       \<and> (\<forall>s. includesStr s '''')
       \<and> collectLinks P html b q
           = map (\<lambda>(txt, u). \<lparr>title = txt, url = u\<rparr>)
               (List.map_filter (passesFilters P b (toLowerCase (urlOrigin P b)))
                  (filter inDivF (load P html)))
       \<and> extractLinks P html b q
           = uniqueLinks (map (\<lambda>(txt, u). \<lparr>title = txt, url = u\<rparr>)
               (List.map_filter (passesFilters P b (toLowerCase (urlOrigin P b)))
                  (filter inDivF (load P html))))
       \<and> (\<forall>el \<in> set (load P html). \<forall>txt u.
             inDivF el \<and> passesFilters P b (toLowerCase (urlOrigin P b)) el = Some (txt, u)
             \<longrightarrow> u \<in> url ` set (extractLinks P html b q))"
proof -
  let ?bo = "toLowerCase (urlOrigin P b)"
  let ?mk = "\<lambda>(txt, u). \<lparr>title = txt, url = u\<rparr>"
  have w: "queryWordsOf q = ['''']"
    using assms by (rule queryWordsOf_blank)
  have i: "\<forall>s. includesStr s ''''"
    by (simp add: includesStr_empty)
  have c: "collectLinks P html b q
             = map ?mk (List.map_filter (passesFilters P b ?bo) (filter inDivF (load P html)))"
  proof -
    have vb: "visitAnchor P b ?bo [[]] = (\<lambda>el. map_option ?mk (passesFilters P b ?bo el))"
      by (rule ext) (rule visitAnchor_blank)
    show ?thesis
      by (simp only: collectLinks_def Let_def w vb map_filter_map_option)
  qed
  have e: "extractLinks P html b q
             = uniqueLinks (map ?mk (List.map_filter (passesFilters P b ?bo)
                 (filter inDivF (load P html))))"
    by (simp add: extractLinks_def c)
  have a: "\<forall>el \<in> set (load P html). \<forall>txt u.
             inDivF el \<and> passesFilters P b ?bo el = Some (txt, u)
             \<longrightarrow> u \<in> url ` set (extractLinks P html b q)"
  proof (intro ballI allI impI)
    fix el t u
    assume el: "el \<in> set (load P html)"
      and p: "inDivF el \<and> passesFilters P b ?bo el = Some (t, u)"
    then have "visitAnchor P b ?bo (queryWordsOf q) el = Some \<lparr>title = t, url = u\<rparr>"
      by (simp add: w visitAnchor_blank)
    with el p have "\<lparr>title = t, url = u\<rparr> \<in> set (collectLinks P html b q)"
      by (auto simp: set_collectLinks)
    then have "url \<lparr>title = t, url = u\<rparr> \<in> url ` set (collectLinks P html b q)"
      by (rule imageI)
    then show "u \<in> url ` set (extractLinks P html b q)"
      by (simp add: urls_extractLinks)
  qed
  from w i c e a show ?thesis
    by (simp only: simp_thms)
qed

theorem blank_query_matches_everything_witness:
  "SearchInput samplePlatform \<lparr>baseUrl = sampleBase, query = ''  '', maxResults = None\<rparr>
   \<and> trim ''  '' = []
   \<and> queryWordsOf ''  '' = ['''']
   \<and> extractLinks samplePlatform pageA sampleBase ''  ''
       = [\<lparr>title = ''Dhandoraa 2025 Movie'',
           url = ''https://moviesda15.com/dhandoraa-2025-tamil-movie/''\<rparr>,
          \<lparr>title = ''Alappuzha Gymkhana (2025) HD'',
           url = ''https://moviesda15.com/alappuzha-gymkhana-2025-tamil-movie/''\<rparr>]"
proof -
  have v: "SearchInput samplePlatform \<lparr>baseUrl = sampleBase, query = ''  '', maxResults = None\<rparr>"
    by code_simp
  have h: "trim ''  '' = []"
    by code_simp
  note inst = blank_query_matches_everything [OF h, of samplePlatform pageA sampleBase]
  from inst have w: "queryWordsOf ''  '' = ['''']"
    by blast
  from inst have "extractLinks samplePlatform pageA sampleBase ''  ''
      = uniqueLinks (map (\<lambda>(txt, u). \<lparr>title = txt, url = u\<rparr>)
          (List.map_filter
             (passesFilters samplePlatform sampleBase
                (toLowerCase (urlOrigin samplePlatform sampleBase)))
             (filter inDivF (load samplePlatform pageA))))"
    by blast
  also have "\<dots> = [\<lparr>title = ''Dhandoraa 2025 Movie'',
           url = ''https://moviesda15.com/dhandoraa-2025-tamil-movie/''\<rparr>,
          \<lparr>title = ''Alappuzha Gymkhana (2025) HD'',
           url = ''https://moviesda15.com/alappuzha-gymkhana-2025-tamil-movie/''\<rparr>]"
    unfolding samplePlatform_fields sampleLoad_pages sampleOrigin_base passesFilters_anchorsA
    by code_simp
  finally show ?thesis
    using v h w by blast
qed

section \<open>The origin filter\<close>

text \<open>
  C1. The filter commented "must be from the same origin" tests that the lower-cased url
  starts with the lower-cased origin of the base url. A url on another host whose name
  starts with the host of the base url passes it: for the base url
  \<open>https://moviesda15.com\<close>, the anchor to
  \<open>https://moviesda15.com.evil.example/x-movie/\<close> is returned, although its origin is
  \<open>https://moviesda15.com.evil.example\<close>.
\<close>

theorem extractLinks_origin_prefix_only:
  "extractLinks samplePlatform pageEvil sampleBase ''x''
     = [\<lparr>title = ''x'', url = ''https://moviesda15.com.evil.example/x-movie/''\<rparr>]
   \<and> urlOrigin samplePlatform ''https://moviesda15.com.evil.example/x-movie/''
       = ''https://moviesda15.com.evil.example''
   \<and> urlOrigin samplePlatform sampleBase = ''https://moviesda15.com''
   \<and> urlOrigin samplePlatform (url (hd (extractLinks samplePlatform pageEvil sampleBase ''x'')))
       \<noteq> urlOrigin samplePlatform sampleBase"
proof -
  have run: "extractLinks samplePlatform pageEvil sampleBase ''x''
     = [\<lparr>title = ''x'', url = ''https://moviesda15.com.evil.example/x-movie/''\<rparr>]"
    unfolding extractLinks_def collectLinks_def Let_def samplePlatform_fields sampleLoad_pages
    by code_simp
  have o1: "urlOrigin samplePlatform ''https://moviesda15.com.evil.example/x-movie/''
       = ''https://moviesda15.com.evil.example''"
    by code_simp
  have o2: "urlOrigin samplePlatform sampleBase = ''https://moviesda15.com''"
    by code_simp
  from run o1 o2 show ?thesis
    by simp
qed

section \<open>Completion orders and \<open>Promise.all\<close>\<close>

lemma completionOrder_Nil: "completionOrder picks [] = []"
  by (simp add: completionOrder.simps)

lemma completionOrder_pick_in:
  "pending \<noteq> [] \<Longrightarrow>
   pending ! (case picks of [] \<Rightarrow> 0 | p # _ \<Rightarrow> p mod length pending) \<in> set pending"
  by (cases picks) simp_all

text \<open>Every task of the batch completes, and no other.\<close>

lemma set_completionOrder: "set (completionOrder picks pending) = set pending"
proof (induction picks pending rule: completionOrder.induct)
  case (1 picks pending)
  show ?case
  proof (cases "pending = []")
    case True
    then show ?thesis by (simp add: completionOrder_Nil)
  next
    case False
    define i where "i = pending ! (case picks of [] \<Rightarrow> 0 | p # _ \<Rightarrow> p mod length pending)"
    have mem: "i \<in> set pending"
      unfolding i_def using False by (rule completionOrder_pick_in)
    have unf: "completionOrder picks pending = i # completionOrder (tl picks) (remove1 i pending)"
      using False by (subst completionOrder.simps) (simp add: i_def Let_def)
    have "set (completionOrder (tl picks) (remove1 i pending)) = set (remove1 i pending)"
      using "1.IH" [OF False refl refl, folded i_def] .
    moreover have "insert i (set (remove1 i pending)) = set pending"
    proof -
      have "set (remove1 i pending) \<subseteq> set pending"
        by (rule set_remove1_subset)
      moreover have "x \<in> set (remove1 i pending)" if "x \<in> set pending" "x \<noteq> i" for x
        using that by (simp add: in_set_remove1)
      ultimately show ?thesis
        using mem by blast
    qed
    ultimately show ?thesis
      by (simp add: unf)
  qed
qed

lemma length_completionOrder: "length (completionOrder picks pending) = length pending"
proof (induction picks pending rule: completionOrder.induct)
  case (1 picks pending)
  show ?case
  proof (cases "pending = []")
    case True
    then show ?thesis by (simp add: completionOrder_Nil)
  next
    case False
    define i where "i = pending ! (case picks of [] \<Rightarrow> 0 | p # _ \<Rightarrow> p mod length pending)"
    have mem: "i \<in> set pending"
      unfolding i_def using False by (rule completionOrder_pick_in)
    have unf: "completionOrder picks pending = i # completionOrder (tl picks) (remove1 i pending)"
      using False by (subst completionOrder.simps) (simp add: i_def Let_def)
    have "length (completionOrder (tl picks) (remove1 i pending)) = length (remove1 i pending)"
      using "1.IH" [OF False refl refl, folded i_def] .
    moreover have "length (remove1 i pending) = length pending - 1"
      using mem by (simp add: length_remove1)
    moreover have "0 < length pending"
      using False by simp
    ultimately show ?thesis
      by (simp add: unf)
  qed
qed

text \<open>Each task completes once: on distinct tasks the order is a permutation.\<close>

lemma distinct_completionOrder:
  "distinct pending \<Longrightarrow> distinct (completionOrder picks pending)"
  using set_completionOrder [of picks pending] length_completionOrder [of picks pending]
  by (metis card_distinct distinct_card)

text \<open>Every order in which each task completes once comes from some picks.\<close>

lemma completionOrder_onto:
  "distinct ord \<Longrightarrow> distinct pending \<Longrightarrow> set ord = set pending \<Longrightarrow>
   \<exists>picks. completionOrder picks pending = ord"
proof (induction ord arbitrary: pending)
  case Nil
  then show ?case by (simp add: completionOrder_Nil)
next
  case (Cons x ord)
  from Cons.prems have xin: "x \<in> set pending"
    by auto
  then obtain k where k: "k < length pending" "pending ! k = x"
    by (auto simp: in_set_conv_nth)
  from Cons.prems have "set ord = set (remove1 x pending)"
    by auto
  moreover from Cons.prems have "distinct ord" "distinct (remove1 x pending)"
    by simp_all
  ultimately obtain picks where p: "completionOrder picks (remove1 x pending) = ord"
    using Cons.IH by blast
  from xin have ne: "pending \<noteq> []"
    by auto
  have "completionOrder (k # picks) pending = x # ord"
    using ne k p by (subst completionOrder.simps) (simp add: Let_def)
  then show ?case
    by blast
qed

lemma length_fold_settle: "length (fold (settle vals) ord slots) = length slots"
  by (induction ord arbitrary: slots) (simp_all add: settle_def)

lemma nth_fold_settle:
  "i < length slots \<Longrightarrow>
   fold (settle vals) ord slots ! i = (if i \<in> set ord then Some (vals ! i) else slots ! i)"
proof (induction ord arbitrary: slots)
  case Nil
  then show ?case by simp
next
  case (Cons j ord)
  have "i < length (settle vals j slots)"
    using Cons.prems by (simp add: settle_def)
  from Cons.IH [OF this] Cons.prems show ?case
    by (auto simp: settle_def nth_list_update)
qed

lemma map_filter_id_Some: "List.map_filter id (map Some xs) = xs"
  by (induction xs) simp_all

text \<open>\<open>Promise.all\<close> resolves with the values in index order, whatever the completion order.\<close>

lemma promiseAll_eq: "promiseAll picks vals = vals"
proof -
  let ?ord = "completionOrder picks [0..<length vals]"
  let ?slots = "fold (settle vals) ?ord (replicate (length vals) None)"
  have "?slots = map Some vals"
  proof (rule nth_equalityI)
    show "length ?slots = length (map Some vals)"
      by (simp add: length_fold_settle)
  next
    fix i
    assume "i < length ?slots"
    then have i: "i < length vals"
      by (simp add: length_fold_settle)
    then have "i \<in> set ?ord"
      by (simp add: set_completionOrder)
    with i show "?slots ! i = map Some vals ! i"
      by (simp add: nth_fold_settle)
  qed
  then show ?thesis
    by (simp add: promiseAll_def map_filter_id_Some)
qed

section \<open>The loop over the batches and the loop over the years\<close>

lemma fold_append_links: "fold (\<lambda>l acc. acc @ l) rs acc = acc @ concat rs"
  by (induction rs arbitrary: acc) simp_all

lemma batchLoop_eq:
  "batchLoop P b q pageUrls i st =
     \<lparr>allLinks = allLinks st @ concat (map (pageTask P b q) (drop i pageUrls)),
      events = events st @ map FetchEv (drop i pageUrls)\<rparr>"
proof (induction P b q pageUrls i st rule: batchLoop.induct)
  case (1 P b q pageUrls i st)
  show ?case
  proof (cases "i < length pageUrls")
    case False
    then show ?thesis
      by (subst batchLoop.simps) simp
  next
    case True
    let ?batch = "take BATCH_SIZE (drop i pageUrls)"
    let ?st = "\<lparr>allLinks = allLinks st @ concat (map (pageTask P b q) ?batch),
               events = events st @ map FetchEv ?batch\<rparr>"
    have sl: "slice pageUrls (int i) (int (i + BATCH_SIZE)) = ?batch"
      by (rule slice_window)
    have unf: "batchLoop P b q pageUrls i st = batchLoop P b q pageUrls (i + BATCH_SIZE) ?st"
      using True
      by (subst batchLoop.simps) (simp only: sl Let_def promiseAll_eq fold_append_links if_True)
    have ih: "batchLoop P b q pageUrls (i + BATCH_SIZE) ?st =
        \<lparr>allLinks = allLinks ?st @ concat (map (pageTask P b q) (drop (i + BATCH_SIZE) pageUrls)),
         events = events ?st @ map FetchEv (drop (i + BATCH_SIZE) pageUrls)\<rparr>"
      using "1.IH" [OF True refl refl]
      by (simp only: sl promiseAll_eq fold_append_links)
    have split: "?batch @ drop (i + BATCH_SIZE) pageUrls = drop i pageUrls"
      using append_take_drop_id [of BATCH_SIZE "drop i pageUrls"]
      by (simp add: add.commute)
    have "concat (map (pageTask P b q) ?batch)
            @ concat (map (pageTask P b q) (drop (i + BATCH_SIZE) pageUrls))
          = concat (map (pageTask P b q) (drop i pageUrls))"
      using arg_cong [OF split, of "\<lambda>xs. concat (map (pageTask P b q) xs)"] by simp
    moreover have "map FetchEv ?batch @ map FetchEv (drop (i + BATCH_SIZE) pageUrls)
          = map FetchEv (drop i pageUrls)"
      using arg_cong [OF split, of "map FetchEv"] by simp
    ultimately show ?thesis
      unfolding unf ih by simp
  qed
qed

lemma detectStep_ge: "m \<le> detectStep el m"
  by (simp add: detectStep_def Let_def split: option.splits)

lemma fold_detectStep_ge: "m \<le> fold detectStep els m"
proof (induction els arbitrary: m)
  case Nil
  show ?case by simp
next
  case (Cons el els)
  have "m \<le> detectStep el m"
    by (rule detectStep_ge)
  also have "\<dots> \<le> fold detectStep els (detectStep el m)"
    by (rule Cons.IH)
  finally show ?case by simp
qed

lemma detectMaxPages_ge_1: "1 \<le> detectMaxPages P html"
  unfolding detectMaxPages_def by (rule fold_detectStep_ge)

text \<open>The pages after the first that are fetched when the first page is \<open>html1\<close>.\<close>

lemma scanYear_fail:
  "fetchPageCatch P (page1UrlOf b year) = None \<Longrightarrow>
   scanYear P b q year st = st\<lparr>events := events st @ [FetchEv (page1UrlOf b year)]\<rparr>"
  by (simp add: scanYear_def Let_def)

lemma scanYear_ok:
  assumes "fetchPageCatch P (page1UrlOf b year) = Some html1"
  shows "scanYear P b q year st =
     \<lparr>allLinks = allLinks st @ extractLinks P html1 b q
         @ concat (map (pageTask P b q)
             (map (pageUrlOf b year)
                [2..<Suc (min (detectMaxPages P html1) MAX_PAGES_ABSOLUTE_LIMIT)])),
      events = events st @ [FetchEv (page1UrlOf b year), DetectEv html1]
         @ map FetchEv (map (pageUrlOf b year)
             [2..<Suc (min (detectMaxPages P html1) MAX_PAGES_ABSOLUTE_LIMIT)])\<rparr>"
proof -
  let ?m = "min (detectMaxPages P html1) MAX_PAGES_ABSOLUTE_LIMIT"
  let ?st2 = "\<lparr>allLinks = allLinks st @ extractLinks P html1 b q,
               events = events st @ [FetchEv (page1UrlOf b year), DetectEv html1]\<rparr>"
  have m: "(if detectMaxPages P html1 > MAX_PAGES_ABSOLUTE_LIMIT
            then MAX_PAGES_ABSOLUTE_LIMIT else detectMaxPages P html1) = ?m"
    by (simp add: min_def)
  have st2: "st\<lparr>events := events st @ [FetchEv (page1UrlOf b year)]\<rparr>
               \<lparr>allLinks := allLinks (st\<lparr>events := events st @ [FetchEv (page1UrlOf b year)]\<rparr>)
                    @ extractLinks P html1 b q,
                events := events (st\<lparr>events := events st @ [FetchEv (page1UrlOf b year)]\<rparr>)
                    @ [DetectEv html1]\<rparr> = ?st2"
    by simp
  have body: "scanYear P b q year st =
      (if ?m > 1 then batchLoop P b q (map (pageUrlOf b year) [2..<Suc ?m]) 0 ?st2 else ?st2)"
    unfolding scanYear_def Let_def assms option.case m st2 ..
  show ?thesis
  proof (cases "?m > 1")
    case True
    then show ?thesis
      unfolding body by (simp add: batchLoop_eq)
  next
    case False
    then have "?m \<le> 1"
      by (simp only: not_less)
    then have e: "[2..<Suc ?m] = []"
      by (simp only: upt_eq_Nil_conv) arith
    show ?thesis
      unfolding body e using False
      by (simp only: if_False list.map concat.simps append_Nil2)
  qed
qed

lemma scanYear_append:
  "scanYear P b q year st =
     \<lparr>allLinks = allLinks st @ linksOfYear P b q year,
      events = events st @ eventsOfYear P b q year\<rparr>"
proof (cases "fetchPageCatch P (page1UrlOf b year)")
  case None
  then show ?thesis
    by (simp add: scanYear_fail linksOfYear_def eventsOfYear_def)
next
  case (Some html1)
  then show ?thesis
    by (simp add: scanYear_ok linksOfYear_def eventsOfYear_def)
qed

lemma fold_scanYear:
  "fold (scanYear P b q) years st =
     \<lparr>allLinks = allLinks st @ concat (map (linksOfYear P b q) years),
      events = events st @ concat (map (eventsOfYear P b q) years)\<rparr>"
proof (induction years arbitrary: st)
  case Nil
  show ?case by simp
next
  case (Cons y years)
  show ?case
    by (simp add: Cons.IH) (simp add: scanYear_append [of P b q y st])
qed

lemma linksOfYear_eq:
  "linksOfYear P b q year =
     (case fetchPageCatch P (page1UrlOf b year) of
        None \<Rightarrow> []
      | Some html1 \<Rightarrow>
          extractLinks P html1 b q
          @ concat (map (pageTask P b q)
              (map (pageUrlOf b year)
                 [2..<Suc (min (detectMaxPages P html1) MAX_PAGES_ABSOLUTE_LIMIT)])))"
  by (simp add: linksOfYear_def scanYear_fail scanYear_ok split: option.splits)

lemma eventsOfYear_eq:
  "eventsOfYear P b q year =
     (case fetchPageCatch P (page1UrlOf b year) of
        None \<Rightarrow> [FetchEv (page1UrlOf b year)]
      | Some html1 \<Rightarrow>
          [FetchEv (page1UrlOf b year), DetectEv html1]
          @ map FetchEv (map (pageUrlOf b year)
              [2..<Suc (min (detectMaxPages P html1) MAX_PAGES_ABSOLUTE_LIMIT)]))"
  by (simp add: eventsOfYear_def scanYear_fail scanYear_ok split: option.splits)

lemma fetchCount_simps:
  "fetchCount [] = 0"
  "fetchCount (FetchEv u # evs) = Suc (fetchCount evs)"
  "fetchCount (DetectEv h # evs) = fetchCount evs"
  "fetchCount (evs @ evs') = fetchCount evs + fetchCount evs'"
  "fetchCount (map FetchEv us) = length us"
  by (simp_all add: fetchCount_def isFetchEv_def comp_def)

lemma fetchPageCatch_fails:
  assumes "fetch P u = NetworkError
           \<or> (\<exists>status body. fetch P u = Response status body
                \<and> (\<not> responseOk status \<or> body = None
                    \<or> (\<exists>t. body = Some t \<and> length t < 200)))"
  shows "fetchPageCatch P u = None"
  using assms by (auto simp: fetchPageCatch_def fetchPage_def)

lemma fetchPageCatch_Some_iff:
  "fetchPageCatch P u = Some t \<longleftrightarrow>
     (\<exists>status. fetch P u = Response status (Some t) \<and> responseOk status \<and> 200 \<le> length t)"
  by (auto simp: fetchPageCatch_def fetchPage_def split: fetchOutcome.splits option.splits)

section \<open>Claims about the crawl\<close>

text \<open>
  C5. One pass of the loop over the years appends its own calls to the log, and among them
  at most 50 are page fetches. When the fetch of the first listing page succeeds with the
  document \<open>html1\<close>, the pass fetches exactly \<open>min (detectMaxPages html1) 50\<close> pages, the
  first one included, whatever \<open>detectMaxPages\<close> reports.
\<close>

theorem fetches_per_year_at_most_50:
  "events (scanYear P b q year st) = events st @ eventsOfYear P b q year
   \<and> fetchCount (eventsOfYear P b q year) \<le> 50
   \<and> (\<forall>html1. fetchPageCatch P (page1UrlOf b year) = Some html1
        \<longrightarrow> fetchCount (eventsOfYear P b q year) = min (detectMaxPages P html1) 50)"
proof -
  have app: "events (scanYear P b q year st) = events st @ eventsOfYear P b q year"
    by (simp add: scanYear_append)
  have ok: "fetchCount (eventsOfYear P b q year) = min (detectMaxPages P html1) 50"
    if "fetchPageCatch P (page1UrlOf b year) = Some html1" for html1
  proof -
    let ?m = "min (detectMaxPages P html1) MAX_PAGES_ABSOLUTE_LIMIT"
    have "1 \<le> ?m"
      using detectMaxPages_ge_1 [of P html1] by (simp add: MAX_PAGES_ABSOLUTE_LIMIT_def)
    moreover have "length [2..<Suc ?m] = Suc ?m - 2"
      by (rule length_upt)
    ultimately have len: "Suc (length [2..<Suc ?m]) = ?m"
      by arith
    have ev: "eventsOfYear P b q year
                = FetchEv (page1UrlOf b year) # DetectEv html1
                    # map FetchEv (map (pageUrlOf b year) [2..<Suc ?m])"
      using that by (simp only: eventsOfYear_eq option.case append.simps)
    have "fetchCount (eventsOfYear P b q year) = Suc (length [2..<Suc ?m])"
      unfolding ev by (simp only: fetchCount_simps length_map)
    with len have "fetchCount (eventsOfYear P b q year) = ?m"
      by (simp only:)
    then show ?thesis
      by (simp add: MAX_PAGES_ABSOLUTE_LIMIT_def)
  qed
  have le: "fetchCount (eventsOfYear P b q year) \<le> 50"
  proof (cases "fetchPageCatch P (page1UrlOf b year)")
    case None
    then show ?thesis
      by (simp add: eventsOfYear_eq fetchCount_simps)
  next
    case (Some html1)
    from ok [OF this] show ?thesis
      by simp
  qed
  from app le ok show ?thesis
    by blast
qed

lemma sample_page1_2025:
  "page1UrlOf sampleBase 2025 = ''https://moviesda15.com/tamil-2025-movies/''"
  by code_simp

lemma sample_fetch_2025:
  "fetchPageCatch samplePlatform (page1UrlOf sampleBase 2025) = Some pageA"
  unfolding sample_page1_2025 fetchPageCatch_Some_iff samplePlatform_fields
  by (simp add: sampleFetch_def responseOk_def length_pageA)

lemma sample_detect_pageA: "detectMaxPages samplePlatform pageA = 9999"
  unfolding detectMaxPages_def samplePlatform_fields sampleLoad_pages
  by code_simp

theorem fetches_per_year_at_most_50_witness:
  "fetchPageCatch samplePlatform (page1UrlOf sampleBase 2025) = Some pageA
   \<and> detectMaxPages samplePlatform pageA = 9999
   \<and> fetchCount (eventsOfYear samplePlatform sampleBase ''dhandoraa'' 2025) = 50"
  using fetches_per_year_at_most_50 [of samplePlatform sampleBase "''dhandoraa''" 2025]
    sample_fetch_2025 sample_detect_pageA
  by simp

text \<open>
  C6. When the fetch of the first listing page of a year fails (the fetch rejects, the
  status is not a success, reading the body rejects, or the body has fewer than 200
  characters, the empty body included), the pass of that year only logs that one fetch:
  it adds no link, does not call \<open>detectMaxPages\<close>, fetches no other page, and the
  loop goes on with the next year from that state.
\<close>

theorem failed_first_page_skips_year:
  assumes "fetch P (page1UrlOf b year) = NetworkError
           \<or> (\<exists>status body. fetch P (page1UrlOf b year) = Response status body
                \<and> (\<not> responseOk status \<or> body = None
                    \<or> (\<exists>t. body = Some t \<and> length t < 200)))"
  shows "scanYear P b q year st = st\<lparr>events := events st @ [FetchEv (page1UrlOf b year)]\<rparr>
       \<and> linksOfYear P b q year = []
       \<and> eventsOfYear P b q year = [FetchEv (page1UrlOf b year)]
       \<and> fold (scanYear P b q) (year # years) st
           = fold (scanYear P b q) years
               (st\<lparr>events := events st @ [FetchEv (page1UrlOf b year)]\<rparr>)"
proof -
  have none: "fetchPageCatch P (page1UrlOf b year) = None"
    using assms by (rule fetchPageCatch_fails)
  then have s: "scanYear P b q year st
                  = st\<lparr>events := events st @ [FetchEv (page1UrlOf b year)]\<rparr>"
    by (rule scanYear_fail)
  from none have l: "linksOfYear P b q year = []"
    by (simp add: linksOfYear_eq)
  from none have e: "eventsOfYear P b q year = [FetchEv (page1UrlOf b year)]"
    by (simp add: eventsOfYear_eq)
  from s l e show ?thesis
    by simp
qed

lemma sample_page1_2026:
  "page1UrlOf sampleBase 2026 = ''https://moviesda15.com/tamil-2026-movies/''"
  by code_simp

theorem failed_first_page_skips_year_witness:
  "fetch samplePlatform (page1UrlOf sampleBase 2026)
     = Response 404 (Some ''<html><body>Not Found</body></html>'')
   \<and> \<not> responseOk 404
   \<and> scanYear samplePlatform sampleBase ''dhandoraa'' 2026 \<lparr>allLinks = [], events = []\<rparr>
       = \<lparr>allLinks = [], events = [FetchEv ''https://moviesda15.com/tamil-2026-movies/'']\<rparr>"
proof -
  have f: "fetch samplePlatform (page1UrlOf sampleBase 2026)
             = Response 404 (Some ''<html><body>Not Found</body></html>'')"
    unfolding sample_page1_2026 samplePlatform_fields by (simp add: sampleFetch_def)
  have r: "\<not> responseOk 404"
    by (simp add: responseOk_def)
  from f r have h: "fetch samplePlatform (page1UrlOf sampleBase 2026) = NetworkError
           \<or> (\<exists>status body. fetch samplePlatform (page1UrlOf sampleBase 2026)
                               = Response status body
                \<and> (\<not> responseOk status \<or> body = None
                    \<or> (\<exists>t. body = Some t \<and> length t < 200)))"
    by blast
  from failed_first_page_skips_year
    [OF h, of "''dhandoraa''" "\<lparr>allLinks = [], events = []\<rparr>"] f r
  show ?thesis
    by (simp add: sample_page1_2026)
qed

text \<open>
  C8. For an input the schema accepts, the sequence returned has at most \<open>maxResults\<close>
  elements, where \<open>maxResults\<close> is 10 when the field is omitted and lies between 1 and 50;
  so the sequence never has more than 50 elements.
\<close>

theorem result_length_at_most_maxResults:
  assumes "SearchInput P params"
  shows "int (length (searchMovieLinks P params)) \<le> maxResultsOf params
       \<and> 1 \<le> maxResultsOf params \<and> maxResultsOf params \<le> 50
       \<and> (maxResults params = None \<longrightarrow> maxResultsOf params = 10)
       \<and> length (searchMovieLinks P params) \<le> 50"
proof -
  from assms have range: "1 \<le> maxResultsOf params \<and> maxResultsOf params \<le> 50"
    by (auto simp: SearchInput_def maxResultsOf_def split: option.splits)
  have dflt: "maxResults params = None \<longrightarrow> maxResultsOf params = 10"
    by (simp add: maxResultsOf_def)
  have "searchMovieLinks P params
          = take (nat (maxResultsOf params)) (uniqueLinks (allLinks (crawlYears P params)))"
    using range by (simp add: searchMovieLinks_def slice_from_0)
  then have "length (searchMovieLinks P params) \<le> nat (maxResultsOf params)"
    by simp
  with range dflt show ?thesis
    by auto
qed

theorem result_length_at_most_maxResults_witness:
  "SearchInput samplePlatform sampleParams
   \<and> maxResultsOf sampleParams = 10
   \<and> length (searchMovieLinks samplePlatform sampleParams) \<le> 10"
proof -
  have v: "SearchInput samplePlatform sampleParams"
    by code_simp
  have m: "maxResultsOf sampleParams = 10"
    by code_simp
  from result_length_at_most_maxResults [OF v] m v show ?thesis
    by simp
qed

section \<open>Independence of the completion order\<close>

lemma normalizeUrl_schedule: "normalizeUrl (P\<lparr>schedule := s\<rparr>) = normalizeUrl P"
  by (intro ext) (simp add: normalizeUrl_def)

lemma passesFilters_schedule: "passesFilters (P\<lparr>schedule := s\<rparr>) = passesFilters P"
  by (intro ext) (simp add: passesFilters_def normalizeUrl_schedule Let_def split: option.splits)

lemma visitAnchor_schedule: "visitAnchor (P\<lparr>schedule := s\<rparr>) = visitAnchor P"
  by (intro ext) (simp add: visitAnchor_def passesFilters_schedule split: option.splits)

lemma extractLinks_schedule: "extractLinks (P\<lparr>schedule := s\<rparr>) = extractLinks P"
  by (intro ext) (simp add: extractLinks_def collectLinks_def visitAnchor_schedule)

lemma fetchPageCatch_schedule: "fetchPageCatch (P\<lparr>schedule := s\<rparr>) = fetchPageCatch P"
  by (intro ext) (simp add: fetchPageCatch_def fetchPage_def)

lemma detectMaxPages_schedule: "detectMaxPages (P\<lparr>schedule := s\<rparr>) = detectMaxPages P"
  by (intro ext) (simp add: detectMaxPages_def)

lemma pageTask_schedule: "pageTask (P\<lparr>schedule := s\<rparr>) = pageTask P"
  by (intro ext) (simp add: pageTask_def fetchPageCatch_schedule extractLinks_schedule split: option.splits)

lemmas schedule_irrelevant =
  fetchPageCatch_schedule extractLinks_schedule detectMaxPages_schedule pageTask_schedule

lemma linksOfYear_schedule: "linksOfYear (P\<lparr>schedule := s\<rparr>) = linksOfYear P"
  by (intro ext) (simp add: linksOfYear_eq schedule_irrelevant split: option.splits)

lemma eventsOfYear_schedule: "eventsOfYear (P\<lparr>schedule := s\<rparr>) = eventsOfYear P"
  by (intro ext) (simp add: eventsOfYear_eq schedule_irrelevant split: option.splits)

lemma crawlYears_eq:
  "crawlYears P params =
     \<lparr>allLinks = concat (map (linksOfYear P (baseUrl params) (trim (query params)))
                   (yearsToScan (currentYear P))),
      events = concat (map (eventsOfYear P (baseUrl params) (trim (query params)))
                 (yearsToScan (currentYear P)))\<rparr>"
  by (simp add: crawlYears_def fold_scanYear)

lemma crawlYears_schedule_irrelevant:
  "crawlYears (P\<lparr>schedule := s\<rparr>) params = crawlYears P params"
  by (simp add: crawlYears_eq linksOfYear_schedule eventsOfYear_schedule)

text \<open>
  C9. With the outcome of every fetch fixed, the state the crawl ends in and the sequence
  returned are the same for any two completion orders of the concurrent fetches: each
  batch appends the links of its pages in the order of the page urls.
\<close>

theorem result_independent_of_completion_order:
  "crawlYears (P\<lparr>schedule := sa\<rparr>) params = crawlYears (P\<lparr>schedule := sb\<rparr>) params
   \<and> searchMovieLinks (P\<lparr>schedule := sa\<rparr>) params
       = searchMovieLinks (P\<lparr>schedule := sb\<rparr>) params
   \<and> allLinks (batchLoop (P\<lparr>schedule := sa\<rparr>) b q pageUrls 0 st)
       = allLinks st @ concat (map (pageTask P b q) pageUrls)"
  by (simp add: crawlYears_schedule_irrelevant searchMovieLinks_def batchLoop_eq
      schedule_irrelevant)

theorem result_independent_of_completion_order_witness:
  "completionOrder (reversedSchedule [''p2'', ''p3'', ''p4'']) [0..<3] = [2, 1, 0]
   \<and> completionOrder [] [0..<3] = [0, 1, 2]
   \<and> searchMovieLinks (samplePlatform\<lparr>schedule := reversedSchedule\<rparr>) sampleParams
       = searchMovieLinks (samplePlatform\<lparr>schedule := (\<lambda>batch. [])\<rparr>) sampleParams"
proof -
  have a: "completionOrder (reversedSchedule [''p2'', ''p3'', ''p4'']) [0..<3] = [2, 1, 0]"
    by code_simp
  have b: "completionOrder [] [0..<3] = [0, 1, 2]"
    by code_simp
  from a b result_independent_of_completion_order
    [where P = samplePlatform and sa = reversedSchedule and sb = "\<lambda>batch. []"
       and params = sampleParams]
  show ?thesis
    by blast
qed

section \<open>The years scanned\<close>

lemma yearsToScan_list:
  "yearsToScan cy = [cy + 1, cy, cy - 1, cy - 2, cy - 3, cy - 4, cy - 5, cy - 6]"
proof -
  have "[0..<YEAR_RANGE] = [0, 1, 2, 3, 4, 5, 6]"
    unfolding YEAR_RANGE_def by (simp add: upt_rec)
  then show ?thesis
    by (simp add: yearsToScan_def)
qed

text \<open>
  C2. The constant \<open>YEAR_RANGE = 7\<close> is commented "Look back 7 years", and the claim
  asks for the year after the current one, the current year, then the 7 years before it.
  The loop pushes \<open>currentYear - i\<close> for \<open>i\<close> from 0 up to, and not including,
  \<open>YEAR_RANGE\<close>, so its first pass yields the current year itself and the oldest year
  it reaches is \<open>currentYear - 6\<close>. In 2025 the years scanned are 2026 down to 2019:
  2018, the seventh year back, is missing.
\<close>

theorem yearsToScan_misses_seventh_year_back:
  "yearsToScan 2025 = [2026, 2025, 2024, 2023, 2022, 2021, 2020, 2019]
   \<and> yearsToScan 2025 \<noteq> [2026, 2025, 2024, 2023, 2022, 2021, 2020, 2019, 2018]
   \<and> 2025 - 7 \<notin> set (yearsToScan 2025)
   \<and> length (yearsToScan 2025) = 8"
  by (simp add: yearsToScan_list)

end
